theory Spec2Isabelle
  imports Main "HOL-Library.Sublist"
begin

section \<open>Values handed over by the alignment library\<close>

text \<open>
  The featurizers of \<^verbatim>\<open>deepchem/feat/bio_seq_featurizer.py\<close> read attributes of
  objects that the external library (pysam) supplies. An exception of that library is a
  value of \<open>lib_error\<close>; a function that can raise returns \<open>lib_error + 'a\<close>, with
  \<open>Inl\<close> for the exception.
\<close>

datatype lib_error = LibError string

text \<open>One alignment record, with the attributes the featurizers read.\<close>

record aligned_segment =
  query_name :: "string option"
  query_sequence :: "string option"
  query_length :: int
  reference_name :: "string option"
  reference_start :: int
  cigar :: "(int \<times> int) list"
  mapping_quality :: int
  is_reverse :: bool
  query_qualities :: "int list"

text \<open>One read of a pileup column, and one pileup column.\<close>

record pileupread =
  alignment :: aligned_segment
  query_position :: "int option"
  is_del :: bool
  is_refskip :: bool
  indel :: int

record pileupcolumn =
  column_reference_name :: string
  reference_pos :: int
  nsegments :: int
  pileups :: "pileupread list"

text \<open>One entry of a FASTA file.\<close>

record fastx_entry =
  name :: string
  sequence :: string

section \<open>Rows and arrays\<close>

text \<open>
  The five-element list built for each read of a pileup column, and the dictionary
  with the keys \<^verbatim>\<open>name\<close>, \<^verbatim>\<open>pos\<close>, \<^verbatim>\<open>depth\<close> and \<^verbatim>\<open>reads\<close> built for each column.
\<close>

type_synonym read_info = "string option \<times> int option \<times> bool \<times> bool \<times> int"

datatype pileup_info =
  PileupInfo (info_name: string) (info_pos: int) (info_depth: int)
    (info_reads: "read_info list")

text \<open>A cell of a feature vector: the Python values that occur in the rows.\<close>

datatype cell =
    CStr "string option"
  | CInt int
  | CCigar "(int \<times> int) list"
  | CBool bool
  | CArray "int list"
  | CPileup "pileup_info list"

type_synonym row = "cell list"

text \<open>
  The result of \<^verbatim>\<open>np.array(features, dtype="object")\<close>: the nested list together with
  the shape that numpy gives it. An empty list becomes an array of shape \<open>(0,)\<close>;
  rows of one common length \<open>k\<close> become an array of shape \<open>(n, k)\<close>; rows of different
  lengths stay a one-dimensional array of \<open>n\<close> lists. (The rows of the featurizers
  hold integers and strings, so numpy does not descend below the second level.)
\<close>

record ndarray =
  shape :: "nat list"
  data :: "row list"

definition np_array :: "row list \<Rightarrow> ndarray" where
  "np_array features =
     (case features of
        [] \<Rightarrow> \<lparr>shape = [0], data = []\<rparr>
      | r # rs \<Rightarrow>
          if list_all (\<lambda>x. length x = length r) rs
          then \<lparr>shape = [length features, length r], data = features\<rparr>
          else \<lparr>shape = [length features], data = features\<rparr>)"

section \<open>The record stream\<close>

text \<open>
  The open alignment file that \<^verbatim>\<open>_featurize\<close> receives as \<^verbatim>\<open>datapoint\<close>. The library
  is external, so the stream is modelled by its interface: the records of the file
  (reading a malformed one raises), the current position, what a pileup pass over the
  file yields and where it leaves the position, whether \<^verbatim>\<open>close()\<close> has been called,
  and the log of the calls made on the stream so far. A featurizer is handed an open
  stream and calls \<^verbatim>\<open>close()\<close> last, so no call of a featurizer reads from a handle
  it has closed; what the library does on a closed handle is not part of the model.
\<close>

datatype op = OpTell | OpSeek nat | OpPileup | OpNext | OpClose

record stream =
  records :: "(lib_error + aligned_segment) list"
  position :: nat
  pileup_source :: "lib_error + pileupcolumn list"
  pileup_end :: nat
  closed :: bool
  ops :: "op list"

text \<open>An open stream positioned at its start, on which nothing has been called yet.\<close>

definition open_stream ::
  "(lib_error + aligned_segment) list \<Rightarrow> lib_error + pileupcolumn list \<Rightarrow> nat \<Rightarrow> stream" where
  "open_stream items pu pe =
     \<lparr>records = items, position = 0, pileup_source = pu, pileup_end = pe,
      closed = False, ops = []\<rparr>"

text \<open>What one step of a Python iterator does: yield a value, stop, or raise.\<close>

datatype 'a step = Yield 'a | Stop | Raise lib_error

definition tell :: "stream \<Rightarrow> nat \<times> stream" where
  "tell s = (position s, s\<lparr>ops := ops s @ [OpTell]\<rparr>)"

definition seek :: "nat \<Rightarrow> stream \<Rightarrow> stream" where
  "seek p s = s\<lparr>position := p, ops := ops s @ [OpSeek p]\<rparr>"

definition close :: "stream \<Rightarrow> stream" where
  "close s = s\<lparr>closed := True, ops := ops s @ [OpClose]\<rparr>"

definition next_record :: "stream \<Rightarrow> aligned_segment step \<times> stream" where
  "next_record s =
     (if position s < length (records s)
      then (case records s ! position s of
              Inr r \<Rightarrow> (Yield r, s\<lparr>position := position s + 1, ops := ops s @ [OpNext]\<rparr>)
            | Inl e \<Rightarrow> (Raise e, s\<lparr>ops := ops s @ [OpNext]\<rparr>))
      else (Stop, s\<lparr>ops := ops s @ [OpNext]\<rparr>))"

text \<open>
  \<^verbatim>\<open>datapoint.pileup()\<close>, iterated to its end: the columns of the file or the
  library's exception; the pass moves the position of the stream.
\<close>

definition pileup :: "stream \<Rightarrow> (lib_error + pileupcolumn list) \<times> stream" where
  "pileup s = (pileup_source s, s\<lparr>position := pileup_end s, ops := ops s @ [OpPileup]\<rparr>)"

section \<open>SAMFeaturizer\<close>

text \<open>The feature vector of lines 84 to 92.\<close>

definition sam_feature_vector :: "aligned_segment \<Rightarrow> row" where
  "sam_feature_vector record =
     [CStr (query_name record), CStr (query_sequence record), CInt (query_length record),
      CStr (reference_name record), CInt (reference_start record), CCigar (cigar record),
      CInt (mapping_quality record)]"

text \<open>
  The loop of lines 83 to 99. The arguments are \<^verbatim>\<open>self.max_records\<close>, the stream,
  \<^verbatim>\<open>features\<close> and \<^verbatim>\<open>record_count\<close>. The cap is compared after the row has been
  appended and the counter incremented.
\<close>

function sam_loop ::
  "int option \<Rightarrow> stream \<Rightarrow> row list \<Rightarrow> int \<Rightarrow> (lib_error + row list) \<times> stream" where
  "sam_loop max_records s features record_count =
     (case next_record s of
        (Stop, s1) \<Rightarrow> (Inr features, s1)
      | (Raise e, s1) \<Rightarrow> (Inl e, s1)
      | (Yield record, s1) \<Rightarrow>
          (let features1 = features @ [sam_feature_vector record];
               record_count1 = record_count + 1
           in if (case max_records of None \<Rightarrow> False | Some k \<Rightarrow> record_count1 \<ge> k)
              then (Inr features1, s1)
              else sam_loop max_records s1 features1 record_count1))"
  by pat_completeness auto

lemma next_record_Yield:
  "next_record s = (Yield r, s1) \<Longrightarrow>
     position s < length (records s) \<and> records s ! position s = Inr r \<and>
     s1 = s\<lparr>position := position s + 1, ops := ops s @ [OpNext]\<rparr>"
  by (auto simp: next_record_def split: if_splits sum.splits)

termination sam_loop
  by (relation "measure (\<lambda>(m, s, f, c). length (records s) - position s)")
     (auto dest!: next_record_Yield [OF sym])

declare sam_loop.simps [simp del]

text \<open>
  \<^verbatim>\<open>SAMFeaturizer._featurize\<close>, lines 80 to 103. An exception raised inside the loop
  leaves the function at once: \<^verbatim>\<open>datapoint.close()\<close> is not reached.
\<close>

definition SAM_featurize :: "int option \<Rightarrow> stream \<Rightarrow> (lib_error + ndarray) \<times> stream" where
  "SAM_featurize max_records datapoint =
     (case sam_loop max_records datapoint [] 0 of
        (Inl e, s1) \<Rightarrow> (Inl e, s1)
      | (Inr features, s1) \<Rightarrow> (Inr (np_array features), close s1))"

section \<open>BAMFeaturizer\<close>

text \<open>
  The dictionary of lines 205 to 217, built for one pileup column, with the
  five-element list of lines 212 to 216 for each of its reads.
\<close>

definition read_info_of :: "pileupread \<Rightarrow> read_info" where
  "read_info_of pileupread =
     (query_sequence (alignment pileupread), query_position pileupread, is_del pileupread,
      is_refskip pileupread, indel pileupread)"

definition pileup_info_of :: "pileupcolumn \<Rightarrow> pileup_info" where
  "pileup_info_of pileupcolumn =
     PileupInfo (column_reference_name pileupcolumn) (reference_pos pileupcolumn)
       (nsegments pileupcolumn) (map read_info_of (pileups pileupcolumn))"

text \<open>
  Lines 195 to 219: the position is read, the pileup columns are collected when
  \<^verbatim>\<open>get_pileup\<close> is set, and the stream is sent back to the position read at the
  start. An exception of the pileup pass leaves the function before the
  \<^verbatim>\<open>seek\<close>.
\<close>

definition pileup_prepass ::
  "bool \<Rightarrow> stream \<Rightarrow> (lib_error + pileup_info list) \<times> stream" where
  "pileup_prepass get_pileup datapoint =
     (case tell datapoint of
        (initial_position, s1) \<Rightarrow>
          if get_pileup
          then (case pileup s1 of
                  (Inl e, s2) \<Rightarrow> (Inl e, s2)
                | (Inr columns, s2) \<Rightarrow>
                    (Inr (map pileup_info_of columns), seek initial_position s2))
          else (Inr [], seek initial_position s1))"

text \<open>The feature vector of lines 223 to 231.\<close>

definition bam_feature_vector :: "bool \<Rightarrow> pileup_info list \<Rightarrow> aligned_segment \<Rightarrow> row" where
  "bam_feature_vector get_pileup pileup_columns record =
     [CStr (query_name record), CStr (query_sequence record), CInt (query_length record),
      CStr (reference_name record), CInt (reference_start record), CCigar (cigar record),
      CInt (mapping_quality record), CBool (is_reverse record),
      CArray (query_qualities record)]
     @ (if get_pileup then [CPileup pileup_columns] else [])"

text \<open>
  The loop of lines 221 to 239: after a record has been read the position is taken
  with \<^verbatim>\<open>tell\<close>, the row is appended, and the stream is sent to that position again
  before the cap is compared.
\<close>

function bam_loop ::
  "int option \<Rightarrow> bool \<Rightarrow> pileup_info list \<Rightarrow> stream \<Rightarrow> row list \<Rightarrow> int \<Rightarrow>
     (lib_error + row list) \<times> stream" where
  "bam_loop max_records get_pileup pileup_columns s features record_count =
     (case next_record s of
        (Stop, s1) \<Rightarrow> (Inr features, s1)
      | (Raise e, s1) \<Rightarrow> (Inl e, s1)
      | (Yield record, s1) \<Rightarrow>
          (case tell s1 of
             (initial_position, s2) \<Rightarrow>
               (let features1 =
                      features @ [bam_feature_vector get_pileup pileup_columns record];
                    record_count1 = record_count + 1;
                    s3 = seek initial_position s2
                in if (case max_records of None \<Rightarrow> False | Some k \<Rightarrow> record_count1 \<ge> k)
                   then (Inr features1, s3)
                   else bam_loop max_records get_pileup pileup_columns s3 features1
                          record_count1)))"
  by pat_completeness auto

termination bam_loop
  by (relation "measure (\<lambda>(m, g, p, s, f, c). length (records s) - position s)")
     (auto simp: tell_def seek_def dest!: next_record_Yield [OF sym])

declare bam_loop.simps [simp del]

text \<open>\<^verbatim>\<open>BAMFeaturizer._featurize\<close>, lines 192 to 243.\<close>

definition BAM_featurize ::
  "int option \<Rightarrow> bool \<Rightarrow> stream \<Rightarrow> (lib_error + ndarray) \<times> stream" where
  "BAM_featurize max_records get_pileup datapoint =
     (case pileup_prepass get_pileup datapoint of
        (Inl e, s1) \<Rightarrow> (Inl e, s1)
      | (Inr pileup_columns, s1) \<Rightarrow>
          (case bam_loop max_records get_pileup pileup_columns s1 [] 0 of
             (Inl e, s2) \<Rightarrow> (Inl e, s2)
           | (Inr features, s2) \<Rightarrow> (Inr (np_array features), close s2)))"

section \<open>CRAMFeaturizer\<close>

text \<open>The feature vector of lines 313 to 321.\<close>

definition cram_feature_vector :: "aligned_segment \<Rightarrow> row" where
  "cram_feature_vector record =
     [CStr (query_name record), CStr (query_sequence record), CInt (query_length record),
      CStr (reference_name record), CInt (reference_start record), CCigar (cigar record),
      CInt (mapping_quality record)]"

text \<open>The loop of lines 312 to 328.\<close>

function cram_loop ::
  "int option \<Rightarrow> stream \<Rightarrow> row list \<Rightarrow> int \<Rightarrow> (lib_error + row list) \<times> stream" where
  "cram_loop max_records s features record_count =
     (case next_record s of
        (Stop, s1) \<Rightarrow> (Inr features, s1)
      | (Raise e, s1) \<Rightarrow> (Inl e, s1)
      | (Yield record, s1) \<Rightarrow>
          (let features1 = features @ [cram_feature_vector record];
               record_count1 = record_count + 1
           in if (case max_records of None \<Rightarrow> False | Some k \<Rightarrow> record_count1 \<ge> k)
              then (Inr features1, s1)
              else cram_loop max_records s1 features1 record_count1))"
  by pat_completeness auto

termination cram_loop
  by (relation "measure (\<lambda>(m, s, f, c). length (records s) - position s)")
     (auto dest!: next_record_Yield [OF sym])

declare cram_loop.simps [simp del]

text \<open>\<^verbatim>\<open>CRAMFeaturizer._featurize\<close>, lines 309 to 332.\<close>

definition CRAM_featurize :: "int option \<Rightarrow> stream \<Rightarrow> (lib_error + ndarray) \<times> stream" where
  "CRAM_featurize max_records datapoint =
     (case cram_loop max_records datapoint [] 0 of
        (Inl e, s1) \<Rightarrow> (Inl e, s1)
      | (Inr features, s1) \<Rightarrow> (Inr (np_array features), close s1))"

section \<open>FASTAFeaturizer\<close>

text \<open>
  \<^verbatim>\<open>pysam.FastxFile(datapoint)\<close> opens the file at a path. The file system maps a path
  to the entries of the file there (reading a malformed entry raises); a path with no
  file makes the constructor raise. The handle holds the entries not yet read and
  whether it has been closed.
\<close>

type_synonym filesystem = "string \<rightharpoonup> (lib_error + fastx_entry) list"

record fastx_file =
  entries :: "(lib_error + fastx_entry) list"
  fastx_closed :: bool

definition FastxFile :: "filesystem \<Rightarrow> string \<Rightarrow> lib_error + fastx_file" where
  "FastxFile fs path =
     (case fs path of
        None \<Rightarrow> Inl (LibError ''file not found'')
      | Some items \<Rightarrow> Inr \<lparr>entries = items, fastx_closed = False\<rparr>)"

definition next_entry :: "fastx_file \<Rightarrow> fastx_entry step \<times> fastx_file" where
  "next_entry f =
     (case entries f of
        [] \<Rightarrow> (Stop, f)
      | Inl e # rest \<Rightarrow> (Raise e, f)
      | Inr entry # rest \<Rightarrow> (Yield entry, f\<lparr>entries := rest\<rparr>))"

definition fastx_close :: "fastx_file \<Rightarrow> fastx_file" where
  "fastx_close f = f\<lparr>fastx_closed := True\<rparr>"

text \<open>The loop of lines 378 and 379.\<close>

function fasta_loop :: "fastx_file \<Rightarrow> row list \<Rightarrow> (lib_error + row list) \<times> fastx_file" where
  "fasta_loop fasta data_rows =
     (case next_entry fasta of
        (Stop, f1) \<Rightarrow> (Inr data_rows, f1)
      | (Raise e, f1) \<Rightarrow> (Inl e, f1)
      | (Yield entry, f1) \<Rightarrow>
          fasta_loop f1 (data_rows @ [[CStr (Some (name entry)), CStr (Some (sequence entry))]]))"
  by pat_completeness auto

lemma next_entry_Yield:
  "next_entry f = (Yield entry, f1) \<Longrightarrow>
     entries f = Inr entry # entries f1 \<and> f1 = f\<lparr>entries := entries f1\<rparr>"
  by (auto simp: next_entry_def split: list.splits sum.splits)

termination fasta_loop
  by (relation "measure (\<lambda>(f, d). length (entries f))")
     (auto dest!: next_entry_Yield [OF sym])

declare fasta_loop.simps [simp del]

text \<open>
  \<^verbatim>\<open>FASTAFeaturizer._featurize\<close>, lines 376 to 380. The \<^verbatim>\<open>with\<close> statement closes the
  file when its body is left, by the end of the loop or by an exception. The second
  component is the handle the call opened, if the constructor returned one.
\<close>

definition FASTA_featurize ::
  "filesystem \<Rightarrow> string \<Rightarrow> (lib_error + ndarray) \<times> fastx_file option" where
  "FASTA_featurize fs datapoint =
     (case FastxFile fs datapoint of
        Inl e \<Rightarrow> (Inl e, None)
      | Inr fasta \<Rightarrow>
          (case fasta_loop fasta [] of
             (Inl e, f1) \<Rightarrow> (Inl e, Some (fastx_close f1))
           | (Inr data_rows, f1) \<Rightarrow> (Inr (np_array data_rows), Some (fastx_close f1))))"

section \<open>Functions used to state the properties\<close>

text \<open>
  The number of records the loops of the SAM, BAM and CRAM featurizers take from \<open>n\<close>
  readable records when the counter stands at \<open>record_count\<close>: all of them without a
  cap; with a cap \<open>k\<close> the loop leaves after the first record that brings the counter
  to \<open>k\<close> or beyond, so it takes at least one record when there is one.
\<close>

definition rows_read :: "int option \<Rightarrow> int \<Rightarrow> nat \<Rightarrow> nat" where
  "rows_read max_records record_count n =
     (case max_records of
        None \<Rightarrow> n
      | Some k \<Rightarrow> min n (max 1 (nat (k - record_count))))"

text \<open>Two alignment records and a pileup column, used as concrete inputs.\<close>

definition read_r1 :: aligned_segment where
  "read_r1 = \<lparr>query_name = Some ''r1'', query_sequence = Some ''ACGT'', query_length = 4,
     reference_name = Some ''chr1'', reference_start = 10, cigar = [(0, 4)],
     mapping_quality = 60, is_reverse = False, query_qualities = [30, 30, 31, 32]\<rparr>"

definition read_r2 :: aligned_segment where
  "read_r2 = \<lparr>query_name = Some ''r2'', query_sequence = None, query_length = 0,
     reference_name = None, reference_start = - 1, cigar = [],
     mapping_quality = 0, is_reverse = True, query_qualities = []\<rparr>"

definition column_c1 :: pileupcolumn where
  "column_c1 = \<lparr>column_reference_name = ''chr1'', reference_pos = 10, nsegments = 1,
     pileups = [\<lparr>alignment = read_r1, query_position = Some 0, is_del = False,
                 is_refskip = False, indel = 0\<rparr>]\<rparr>"

text \<open>A file system with three FASTA files, used as a concrete input.\<close>

definition fasta_files :: filesystem where
  "fasta_files path =
     (if path = ''example.fasta''
      then Some [Inr \<lparr>name = ''seq1'', sequence = ''ACGT''\<rparr>,
                 Inr \<lparr>name = ''seq2'', sequence = ''TTTT''\<rparr>]
      else if path = ''empty.fasta'' then Some []
      else if path = ''broken.fasta''
      then Some [Inr \<lparr>name = ''seq1'', sequence = ''ACGT''\<rparr>, Inl (LibError ''malformed entry'')]
      else None)"

section \<open>Reading from the stream\<close>

lemma data_np_array: "data (np_array features) = features"
  by (simp add: np_array_def split: list.splits)

lemma next_record_ops: "ops (snd (next_record s)) = ops s @ [OpNext]"
  by (simp add: next_record_def split: sum.splits)

lemma drop_Nil_next:
  "drop (position s) (records s) = [] \<Longrightarrow>
     next_record s = (Stop, s\<lparr>ops := ops s @ [OpNext]\<rparr>)"
  by (simp add: next_record_def)

lemma drop_Cons_next:
  assumes "drop (position s) (records s) = Inr r # rest"
  shows "next_record s =
           (Yield r, s\<lparr>position := Suc (position s), ops := ops s @ [OpNext]\<rparr>)"
proof -
  from assms have lt: "position s < length (records s)"
    by (metis drop_all list.distinct(1) not_le)
  with assms have "records s ! position s = Inr r"
    by (metis Cons_nth_drop_Suc list.inject)
  with lt show ?thesis by (simp add: next_record_def)
qed

lemma drop_Cons_rest:
  assumes "drop (position s) (records s) = x # rest"
  shows "drop (Suc (position s)) (records s) = rest"
  using assms by (metis drop_Suc tl_drop list.sel(3))

section \<open>The SAM and CRAM loops\<close>

text \<open>The CRAM loop is the SAM loop: the two bodies do the same on every stream.\<close>

lemma cram_loop_sam_loop: "cram_loop m s acc c = sam_loop m s acc c"
proof (induction m s acc c rule: sam_loop.induct)
  case (1 m s f c)
  show ?case
  proof (cases "next_record s")
    case (Pair st s1)
    show ?thesis
    proof (cases st)
      case (Yield r)
      with Pair 1 show ?thesis
        by (subst cram_loop.simps, subst sam_loop.simps)
           (simp add: cram_feature_vector_def sam_feature_vector_def Let_def)
    next
      case Stop
      with Pair show ?thesis
        by (subst cram_loop.simps, subst sam_loop.simps) simp
    next
      case (Raise e)
      with Pair show ?thesis
        by (subst cram_loop.simps, subst sam_loop.simps) simp
    qed
  qed
qed

lemma CRAM_featurize_SAM_featurize: "CRAM_featurize m s = SAM_featurize m s"
  by (simp add: CRAM_featurize_def SAM_featurize_def cram_loop_sam_loop)

text \<open>
  On a stream whose records from the current position on are all readable, the loop
  returns the rows of the first \<open>rows_read\<close> of them.
\<close>

lemma sam_loop_wellformed:
  "drop (position s) (records s) = map Inr rs \<Longrightarrow>
   fst (sam_loop m s acc c) =
     Inr (acc @ map sam_feature_vector (take (rows_read m c (length rs)) rs))"
proof (induction rs arbitrary: s acc c)
  case Nil
  then show ?case
    by (subst sam_loop.simps) (simp add: drop_Nil_next)
next
  case (Cons r rs)
  let ?s1 = "s\<lparr>position := Suc (position s), ops := ops s @ [OpNext]\<rparr>"
  from Cons.prems have nx: "next_record s = (Yield r, ?s1)"
    by (simp add: drop_Cons_next)
  from Cons.prems have "drop (position ?s1) (records ?s1) = map Inr rs"
    using drop_Cons_rest [of s "Inr r" "map Inr rs"] by simp
  note IH = Cons.IH [OF this]
  show ?case
  proof (cases m)
    case None
    with IH show ?thesis
      by (subst sam_loop.simps) (simp add: nx rows_read_def)
  next
    case (Some k)
    show ?thesis
    proof (cases "k \<le> c + 1")
      case True
      then have "max 1 (nat (k - c)) = Suc 0" by (auto simp: max_def)
      with True show ?thesis
        by (subst sam_loop.simps) (simp add: nx Some rows_read_def)
    next
      case False
      then have "max 1 (nat (k - c)) = Suc (max 1 (nat (k - (c + 1))))"
        by (auto simp: max_def)
      with False IH show ?thesis
        by (subst sam_loop.simps) (simp add: nx Some rows_read_def)
    qed
  qed
qed

text \<open>
  On any stream, a loop that returns rows returns the rows of a run of readable
  records that starts at the current position.
\<close>

lemma sam_loop_prefix:
  "sam_loop m s acc c = (Inr t, s') \<Longrightarrow>
     \<exists>rs. prefix (map Inr rs) (drop (position s) (records s)) \<and>
          t = acc @ map sam_feature_vector rs"
proof (induction "length (records s) - position s" arbitrary: s acc c rule: less_induct)
  case less
  show ?case
  proof (cases "next_record s")
    case (Pair st s1)
    show ?thesis
    proof (cases st)
      case Stop
      with Pair less.prems have "t = acc"
        by (subst (asm) sam_loop.simps) simp
      then show ?thesis
        by (intro exI [of _ "[]"]) simp
    next
      case (Raise e)
      with Pair less.prems have False
        by (subst (asm) sam_loop.simps) simp
      then show ?thesis ..
    next
      case (Yield r)
      with Pair have s1: "s1 = s\<lparr>position := position s + 1, ops := ops s @ [OpNext]\<rparr>"
        and lt: "position s < length (records s)"
        and at: "records s ! position s = Inr r"
        by (auto dest: next_record_Yield)
      from lt at have dr:
        "drop (position s) (records s) = Inr r # drop (position s1) (records s1)"
        by (simp add: s1 Cons_nth_drop_Suc [symmetric])
      show ?thesis
      proof (cases "case m of None \<Rightarrow> False | Some k \<Rightarrow> k \<le> c + 1")
        case True
        with Pair Yield less.prems have "t = acc @ [sam_feature_vector r]"
          by (subst (asm) sam_loop.simps) simp
        then show ?thesis
          by (intro exI [of _ "[r]"]) (simp add: dr)
      next
        case False
        with Pair Yield less.prems
        have run: "sam_loop m s1 (acc @ [sam_feature_vector r]) (c + 1) = (Inr t, s')"
          by (subst (asm) sam_loop.simps) simp
        have "length (records s1) - position s1 < length (records s) - position s"
          using lt by (simp add: s1)
        from less.hyps [OF this run] obtain rs where
          "prefix (map Inr rs) (drop (position s1) (records s1))"
          "t = (acc @ [sam_feature_vector r]) @ map sam_feature_vector rs"
          by blast
        then show ?thesis
          by (intro exI [of _ "r # rs"]) (simp add: dr)
      qed
    qed
  qed
qed

lemma SAM_featurize_Inr:
  assumes "fst (SAM_featurize m s) = Inr a"
  obtains t s1 where "sam_loop m s [] 0 = (Inr t, s1)" and "a = np_array t"
    and "snd (SAM_featurize m s) = close s1"
proof (cases "sam_loop m s [] 0")
  case (Pair res s1)
  with assms that show ?thesis
    by (cases res) (auto simp: SAM_featurize_def)
qed

text \<open>
  On any stream, a loop that returns rows has read exactly the records between the
  position it started at and the position it leaves the stream at; they are the first
  \<open>rows_read\<close> records from the start position, and the rows returned are theirs.
\<close>

lemma rows_read_0: "rows_read m c 0 = 0"
  by (simp add: rows_read_def split: option.splits)

lemma rows_read_cap_reached: "k \<le> c + 1 \<Longrightarrow> 0 < n \<Longrightarrow> rows_read (Some k) c n = Suc 0"
  by (auto simp: rows_read_def max_def min_def)

lemma rows_read_step:
  assumes "0 < n" and "\<not> (case m of None \<Rightarrow> False | Some k \<Rightarrow> k \<le> c + 1)"
  shows "rows_read m c n = Suc (rows_read m (c + 1) (n - 1))"
proof (cases m)
  case None
  with assms show ?thesis by (simp add: rows_read_def)
next
  case (Some k)
  with assms have "max 1 (nat (k - c)) = Suc (max 1 (nat (k - (c + 1))))"
    by (auto simp: max_def)
  with assms Some show ?thesis
    by (cases n) (simp_all add: rows_read_def)
qed

lemma sam_loop_consumed:
  "sam_loop m s acc c = (Inr t, s') \<Longrightarrow>
     \<exists>rs. take (position s' - position s) (drop (position s) (records s)) = map Inr rs \<and>
          position s' = position s + length rs \<and>
          length rs = rows_read m c (length (records s) - position s) \<and>
          records s' = records s \<and> closed s' = closed s \<and>
          (ops s' = ops s @ replicate (length rs) OpNext \<or>
           ops s' = ops s @ replicate (Suc (length rs)) OpNext) \<and>
          t = acc @ map sam_feature_vector rs"
proof (induction "length (records s) - position s" arbitrary: s acc c rule: less_induct)
  case less
  show ?case
  proof (cases "next_record s")
    case (Pair st s1)
    show ?thesis
    proof (cases st)
      case Stop
      with Pair have ge: "length (records s) \<le> position s"
        and s1: "s1 = s\<lparr>ops := ops s @ [OpNext]\<rparr>"
        by (auto simp: next_record_def split: if_splits sum.splits)
      from Stop Pair less.prems have "t = acc" "s' = s1"
        by (subst (asm) sam_loop.simps, simp)+
      with ge s1 show ?thesis
        by (intro exI [of _ "[]"]) (simp add: rows_read_0)
    next
      case (Raise e)
      with Pair less.prems have False
        by (subst (asm) sam_loop.simps) simp
      then show ?thesis ..
    next
      case (Yield r)
      with Pair have s1: "s1 = s\<lparr>position := position s + 1, ops := ops s @ [OpNext]\<rparr>"
        and lt: "position s < length (records s)"
        and at: "records s ! position s = Inr r"
        by (auto dest: next_record_Yield)
      from lt at have dr:
        "drop (position s) (records s) = Inr r # drop (Suc (position s)) (records s)"
        by (simp add: Cons_nth_drop_Suc [symmetric])
      from lt have n: "0 < length (records s) - position s" by simp
      show ?thesis
      proof (cases "case m of None \<Rightarrow> False | Some k \<Rightarrow> k \<le> c + 1")
        case True
        then obtain k where m: "m = Some k" and k: "k \<le> c + 1"
          by (cases m) auto
        from True Pair Yield less.prems have "t = acc @ [sam_feature_vector r]" "s' = s1"
          by (subst (asm) sam_loop.simps, simp)+
        with s1 dr rows_read_cap_reached [OF k n] m show ?thesis
          by (intro exI [of _ "[r]"]) simp
      next
        case False
        with Pair Yield less.prems
        have run: "sam_loop m s1 (acc @ [sam_feature_vector r]) (c + 1) = (Inr t, s')"
          by (subst (asm) sam_loop.simps) simp
        have "length (records s1) - position s1 < length (records s) - position s"
          using lt by (simp add: s1)
        from less.hyps [OF this run] obtain rs where
          rs: "take (position s' - position s1) (drop (position s1) (records s1)) = map Inr rs"
            "position s' = position s1 + length rs"
            "length rs = rows_read m (c + 1) (length (records s1) - position s1)"
            "records s' = records s1" "closed s' = closed s1"
            "ops s' = ops s1 @ replicate (length rs) OpNext \<or>
             ops s' = ops s1 @ replicate (Suc (length rs)) OpNext"
            "t = (acc @ [sam_feature_vector r]) @ map sam_feature_vector rs"
          by blast
        have p: "position s' - position s = Suc (position s' - position s1)"
          using rs(2) by (simp add: s1)
        have "take (position s' - position s) (drop (position s) (records s)) = map Inr (r # rs)"
          using rs(1) unfolding p dr by (simp add: s1)
        moreover have "length (r # rs) = rows_read m c (length (records s) - position s)"
          using rs(3) rows_read_step [OF n False] by (simp add: s1)
        moreover have "ops s' = ops s @ replicate (length (r # rs)) OpNext \<or>
           ops s' = ops s @ replicate (Suc (length (r # rs))) OpNext"
          using rs(6) by (auto simp: s1 replicate_append_same)
        ultimately show ?thesis
          using rs(2,4,5,7) by (intro exI [of _ "r # rs"]) (simp add: s1)
      qed
    qed
  qed
qed

section \<open>Rows of the SAM and CRAM featurizers\<close>

text \<open>
  Claim C6. Whenever the SAM or the CRAM featurizer returns a table, the records it
  has consumed are the records \<open>rs\<close> between the position the stream had and the
  position it has afterwards (one \<^verbatim>\<open>next\<close> for each of them in the log of calls, and
  one more when the stream ran out), their number is the number \<open>rows_read\<close> that the
  cap fixes, and the table holds one row for each of them, in the order of the stream:
  the seven-element vector [query_name, query_sequence, query_length, reference_name,
  reference_start, cigar, mapping_quality] of that record, each attribute copied as it
  is (a missing string stays \<open>None\<close>).
\<close>

theorem C6_rows_are_the_records_in_order:
  assumes "featurize = SAM_featurize \<or> featurize = CRAM_featurize"
    and "fst (featurize max_records s) = Inr a"
  shows "\<exists>rs. take (position (snd (featurize max_records s)) - position s)
                (drop (position s) (records s)) = map Inr rs \<and>
           position (snd (featurize max_records s)) = position s + length rs \<and>
           length rs = rows_read max_records 0 (length (records s) - position s) \<and>
           (ops (snd (featurize max_records s)) =
              ops s @ replicate (length rs) OpNext @ [OpClose] \<or>
            ops (snd (featurize max_records s)) =
              ops s @ replicate (Suc (length rs)) OpNext @ [OpClose]) \<and>
           data a =
             map (\<lambda>r. [CStr (query_name r), CStr (query_sequence r), CInt (query_length r),
                       CStr (reference_name r), CInt (reference_start r), CCigar (cigar r),
                       CInt (mapping_quality r)]) rs"
proof -
  from assms(1) have f: "featurize max_records s = SAM_featurize max_records s"
    by (auto simp: CRAM_featurize_SAM_featurize)
  with assms(2) have "fst (SAM_featurize max_records s) = Inr a" by simp
  then obtain t s1 where run: "sam_loop max_records s [] 0 = (Inr t, s1)"
    and a: "a = np_array t"
    and fin: "snd (SAM_featurize max_records s) = close s1"
    by (rule SAM_featurize_Inr)
  from sam_loop_consumed [OF run] obtain rs where
    rs: "take (position s1 - position s) (drop (position s) (records s)) = map Inr rs"
      "position s1 = position s + length rs"
      "length rs = rows_read max_records 0 (length (records s) - position s)"
      "ops s1 = ops s @ replicate (length rs) OpNext \<or>
       ops s1 = ops s @ replicate (Suc (length rs)) OpNext"
      "t = map sam_feature_vector rs"
    by auto
  have c: "position (close s1) = position s1" "ops (close s1) = ops s1 @ [OpClose]"
    by (simp_all add: close_def)
  from rs(4) have o: "ops (close s1) = ops s @ replicate (length rs) OpNext @ [OpClose] \<or>
      ops (close s1) = ops s @ replicate (Suc (length rs)) OpNext @ [OpClose]"
    unfolding c by auto
  from rs(1,2,3,5) o show ?thesis
    unfolding f fin a data_np_array sam_feature_vector_def c(1)
    by (intro exI [of _ rs]) simp
qed

theorem C6_rows_are_the_records_in_order_witness:
  "fst (SAM_featurize (Some 2)
         ((open_stream [Inr read_r2, Inr read_r1, Inr read_r2, Inr read_r1] (Inr []) 0)
            \<lparr>position := 1\<rparr>)) =
     Inr \<lparr>shape = [2, 7],
          data = [[CStr (Some ''r1''), CStr (Some ''ACGT''), CInt 4, CStr (Some ''chr1''),
                   CInt 10, CCigar [(0, 4)], CInt 60],
                  [CStr (Some ''r2''), CStr None, CInt 0, CStr None,
                   CInt (- 1), CCigar [], CInt 0]]\<rparr> \<and>
   position (snd (SAM_featurize (Some 2)
         ((open_stream [Inr read_r2, Inr read_r1, Inr read_r2, Inr read_r1] (Inr []) 0)
            \<lparr>position := 1\<rparr>))) = 3 \<and>
   (\<exists>rs. take 2 (drop 1 [Inr read_r2 :: lib_error + aligned_segment, Inr read_r1, Inr read_r2, Inr read_r1]) = map Inr rs \<and>
         length rs = 2 \<and>
         [[CStr (Some ''r1''), CStr (Some ''ACGT''), CInt 4, CStr (Some ''chr1''),
           CInt 10, CCigar [(0, 4)], CInt 60],
          [CStr (Some ''r2''), CStr None, CInt 0, CStr None,
           CInt (- 1), CCigar [], CInt 0]] =
         map (\<lambda>r. [CStr (query_name r), CStr (query_sequence r), CInt (query_length r),
                   CStr (reference_name r), CInt (reference_start r), CCigar (cigar r),
                   CInt (mapping_quality r)]) rs) \<and>
   fst (CRAM_featurize None (open_stream [Inr read_r2] (Inr []) 0)) =
     Inr \<lparr>shape = [1, 7],
          data = [[CStr (Some ''r2''), CStr None, CInt 0, CStr None,
                   CInt (- 1), CCigar [], CInt 0]]\<rparr> \<and>
   ops (snd (CRAM_featurize None (open_stream [Inr read_r2] (Inr []) 0))) =
     [OpNext, OpNext, OpClose] \<and>
   (\<exists>rs. take 1 (drop 0 [Inr read_r2 :: lib_error + aligned_segment]) = map Inr rs \<and>
         length rs = 1 \<and>
         [[CStr (Some ''r2''), CStr None, CInt 0, CStr None,
           CInt (- 1), CCigar [], CInt 0]] =
         map (\<lambda>r. [CStr (query_name r), CStr (query_sequence r), CInt (query_length r),
                   CStr (reference_name r), CInt (reference_start r), CCigar (cigar r),
                   CInt (mapping_quality r)]) rs)"
proof -
  let ?s1 = "(open_stream [Inr read_r2, Inr read_r1, Inr read_r2, Inr read_r1] (Inr []) 0)
               \<lparr>position := 1\<rparr>"
  let ?a1 = "\<lparr>shape = [2, 7],
          data = [[CStr (Some ''r1''), CStr (Some ''ACGT''), CInt 4, CStr (Some ''chr1''),
                   CInt 10, CCigar [(0, 4)], CInt 60],
                  [CStr (Some ''r2''), CStr None, CInt 0, CStr None,
                   CInt (- 1), CCigar [], CInt 0]]\<rparr>"
  let ?s2 = "open_stream [Inr read_r2] (Inr []) 0"
  let ?a2 = "\<lparr>shape = [1, 7],
          data = [[CStr (Some ''r2''), CStr None, CInt 0, CStr None,
                   CInt (- 1), CCigar [], CInt 0]]\<rparr>"
  have h1: "fst (SAM_featurize (Some 2) ?s1) = Inr ?a1"
    by code_simp
  have p1: "position (snd (SAM_featurize (Some 2) ?s1)) = 3"
    by code_simp
  have h2: "fst (CRAM_featurize None ?s2) = Inr ?a2"
    by code_simp
  have o2: "ops (snd (CRAM_featurize None ?s2)) = [OpNext, OpNext, OpClose]"
    by code_simp
  have p2: "position (snd (CRAM_featurize None ?s2)) = 1"
    by code_simp
  from C6_rows_are_the_records_in_order [OF disjI1 [OF refl] h1] obtain rs1 where
    t1: "take (position (snd (SAM_featurize (Some 2) ?s1)) - position ?s1)
           (drop (position ?s1) (records ?s1)) = map Inr rs1"
    and l1: "length rs1 = rows_read (Some 2) 0 (length (records ?s1) - position ?s1)"
    and d1: "data ?a1 =
         map (\<lambda>r. [CStr (query_name r), CStr (query_sequence r), CInt (query_length r),
                   CStr (reference_name r), CInt (reference_start r), CCigar (cigar r),
                   CInt (mapping_quality r)]) rs1"
    by blast
  from l1 have l1': "length rs1 = 2"
    by (simp add: open_stream_def rows_read_def)
  from t1 l1' have t1':
    "take 2 (drop 1 [Inr read_r2 :: lib_error + aligned_segment, Inr read_r1, Inr read_r2,
                     Inr read_r1]) = map Inr rs1"
    unfolding p1 by (simp add: open_stream_def)
  from C6_rows_are_the_records_in_order [OF disjI2 [OF refl] h2] obtain rs2 where
    t2: "take (position (snd (CRAM_featurize None ?s2)) - position ?s2)
           (drop (position ?s2) (records ?s2)) = map Inr rs2"
    and l2: "length rs2 = rows_read None 0 (length (records ?s2) - position ?s2)"
    and d2: "data ?a2 =
         map (\<lambda>r. [CStr (query_name r), CStr (query_sequence r), CInt (query_length r),
                   CStr (reference_name r), CInt (reference_start r), CCigar (cigar r),
                   CInt (mapping_quality r)]) rs2"
    by blast
  from l2 have l2': "length rs2 = 1"
    by (simp add: open_stream_def rows_read_def)
  from t2 l2' have t2':
    "take 1 (drop 0 [Inr read_r2 :: lib_error + aligned_segment]) = map Inr rs2"
    unfolding p2 by (simp add: open_stream_def)
  from t1' l1' d1 have w1: "\<exists>rs. take 2 (drop 1 [Inr read_r2 :: lib_error + aligned_segment, Inr read_r1, Inr read_r2, Inr read_r1]) =
                  map Inr rs \<and> length rs = 2 \<and> data ?a1 =
         map (\<lambda>r. [CStr (query_name r), CStr (query_sequence r), CInt (query_length r),
                   CStr (reference_name r), CInt (reference_start r), CCigar (cigar r),
                   CInt (mapping_quality r)]) rs"
    by blast
  from t2' l2' d2 have w2: "\<exists>rs. take 1 (drop 0 [Inr read_r2 :: lib_error + aligned_segment]) = map Inr rs \<and> length rs = 1 \<and>
       data ?a2 =
         map (\<lambda>r. [CStr (query_name r), CStr (query_sequence r), CInt (query_length r),
                   CStr (reference_name r), CInt (reference_start r), CCigar (cigar r),
                   CInt (mapping_quality r)]) rs"
    by blast
  have da: "data ?a1 = [[CStr (Some ''r1''), CStr (Some ''ACGT''), CInt 4, CStr (Some ''chr1''),
           CInt 10, CCigar [(0, 4)], CInt 60],
          [CStr (Some ''r2''), CStr None, CInt 0, CStr None,
           CInt (- 1), CCigar [], CInt 0]]"
    "data ?a2 = [[CStr (Some ''r2''), CStr None, CInt 0, CStr None,
           CInt (- 1), CCigar [], CInt 0]]"
    by simp_all
  from h1 p1 w1 h2 o2 w2 show ?thesis
    unfolding da by (intro conjI)
qed

section \<open>The SAM and the CRAM featurizer do the same\<close>

text \<open>
  Claim C8. For every stream and every value of \<open>max_records\<close>, the SAM featurizer and
  the CRAM featurizer give the same result (the same table, or the same exception) and
  leave the stream in the same state, with the same log of calls made on it.
\<close>

theorem C8_sam_and_cram_extensionally_equal:
  "SAM_featurize max_records s = CRAM_featurize max_records s"
  by (simp add: CRAM_featurize_def SAM_featurize_def cram_loop_sam_loop)

section \<open>The BAM loop and the pileup pass\<close>

lemma bam_loop_ops:
  "\<exists>rest. ops (snd (bam_loop m g pc s acc c)) = ops s @ rest \<and> OpPileup \<notin> set rest"
proof (induction "length (records s) - position s" arbitrary: s acc c rule: less_induct)
  case less
  show ?case
  proof (cases "next_record s")
    case (Pair st s1)
    have o1: "ops s1 = ops s @ [OpNext]"
      using next_record_ops [of s] Pair by simp
    show ?thesis
    proof (cases st)
      case Stop
      with Pair o1 show ?thesis
        by (subst bam_loop.simps) simp
    next
      case (Raise e)
      with Pair o1 show ?thesis
        by (subst bam_loop.simps) simp
    next
      case (Yield r)
      with Pair have s1: "s1 = s\<lparr>position := position s + 1, ops := ops s @ [OpNext]\<rparr>"
        and lt: "position s < length (records s)"
        by (auto dest: next_record_Yield)
      let ?s3 = "seek (position s1) (snd (tell s1))"
      have o3: "ops ?s3 = ops s @ [OpNext, OpTell, OpSeek (position s1)]"
        by (simp add: seek_def tell_def o1)
      have "length (records ?s3) - position ?s3 < length (records s) - position s"
        using lt by (simp add: seek_def tell_def s1)
      from less [OF this] obtain rest where
        r: "ops (snd (bam_loop m g pc ?s3 (acc @ [bam_feature_vector g pc r]) (c + 1))) =
              ops ?s3 @ rest"
          "OpPileup \<notin> set rest"
        by blast
      show ?thesis
      proof (cases "case m of None \<Rightarrow> False | Some k \<Rightarrow> k \<le> c + 1")
        case True
        with Pair Yield o3 show ?thesis
          by (subst bam_loop.simps) (simp add: tell_def)
      next
        case False
        with Pair Yield r o3 show ?thesis
          by (subst bam_loop.simps) (simp add: tell_def)
      qed
    qed
  qed
qed

lemma bam_loop_prefix:
  "bam_loop m g pc s acc c = (Inr t, s') \<Longrightarrow>
     \<exists>rs. prefix (map Inr rs) (drop (position s) (records s)) \<and>
          t = acc @ map (bam_feature_vector g pc) rs"
proof (induction "length (records s) - position s" arbitrary: s acc c rule: less_induct)
  case less
  show ?case
  proof (cases "next_record s")
    case (Pair st s1)
    show ?thesis
    proof (cases st)
      case Stop
      with Pair less.prems have "t = acc"
        by (subst (asm) bam_loop.simps) simp
      then show ?thesis
        by (intro exI [of _ "[]"]) simp
    next
      case (Raise e)
      with Pair less.prems have False
        by (subst (asm) bam_loop.simps) simp
      then show ?thesis ..
    next
      case (Yield r)
      with Pair have s1: "s1 = s\<lparr>position := position s + 1, ops := ops s @ [OpNext]\<rparr>"
        and lt: "position s < length (records s)"
        and at: "records s ! position s = Inr r"
        by (auto dest: next_record_Yield)
      let ?s3 = "seek (position s1) (snd (tell s1))"
      from lt at have dr:
        "drop (position s) (records s) = Inr r # drop (position ?s3) (records ?s3)"
        by (simp add: s1 seek_def tell_def Cons_nth_drop_Suc [symmetric])
      show ?thesis
      proof (cases "case m of None \<Rightarrow> False | Some k \<Rightarrow> k \<le> c + 1")
        case True
        with Pair Yield less.prems have "t = acc @ [bam_feature_vector g pc r]"
          by (subst (asm) bam_loop.simps) (simp add: tell_def)
        then show ?thesis
          by (intro exI [of _ "[r]"]) (simp add: dr)
      next
        case False
        with Pair Yield less.prems
        have run: "bam_loop m g pc ?s3 (acc @ [bam_feature_vector g pc r]) (c + 1) = (Inr t, s')"
          by (subst (asm) bam_loop.simps) (simp add: tell_def)
        have "length (records ?s3) - position ?s3 < length (records s) - position s"
          using lt by (simp add: s1 seek_def tell_def)
        from less.hyps [OF this run] obtain rs where
          "prefix (map Inr rs) (drop (position ?s3) (records ?s3))"
          "t = (acc @ [bam_feature_vector g pc r]) @ map (bam_feature_vector g pc) rs"
          by blast
        then show ?thesis
          by (intro exI [of _ "r # rs"]) (simp add: dr)
      qed
    qed
  qed
qed

lemma bam_loop_wellformed:
  "drop (position s) (records s) = map Inr rs \<Longrightarrow>
   fst (bam_loop m g pc s acc c) =
     Inr (acc @ map (bam_feature_vector g pc) (take (rows_read m c (length rs)) rs))"
proof (induction rs arbitrary: s acc c)
  case Nil
  then show ?case
    by (subst bam_loop.simps) (simp add: drop_Nil_next)
next
  case (Cons r rs)
  let ?s1 = "s\<lparr>position := Suc (position s), ops := ops s @ [OpNext]\<rparr>"
  let ?s3 = "seek (position ?s1) (snd (tell ?s1))"
  from Cons.prems have nx: "next_record s = (Yield r, ?s1)"
    by (simp add: drop_Cons_next)
  from Cons.prems have "drop (position ?s3) (records ?s3) = map Inr rs"
    using drop_Cons_rest [of s "Inr r" "map Inr rs"] by (simp add: seek_def tell_def)
  note IH = Cons.IH [OF this]
  show ?case
  proof (cases m)
    case None
    with IH show ?thesis
      by (subst bam_loop.simps) (simp add: nx rows_read_def tell_def)
  next
    case (Some k)
    show ?thesis
    proof (cases "k \<le> c + 1")
      case True
      then have "max 1 (nat (k - c)) = Suc 0" by (auto simp: max_def)
      with True show ?thesis
        by (subst bam_loop.simps) (simp add: nx Some rows_read_def tell_def)
    next
      case False
      then have "max 1 (nat (k - c)) = Suc (max 1 (nat (k - (c + 1))))"
        by (auto simp: max_def)
      with False IH show ?thesis
        by (subst bam_loop.simps) (simp add: nx Some rows_read_def tell_def)
    qed
  qed
qed

lemma pileup_prepass_True:
  "pileup_prepass True s =
     (case pileup_source s of
        Inl e \<Rightarrow> (Inl e, s\<lparr>position := pileup_end s, ops := ops s @ [OpTell, OpPileup]\<rparr>)
      | Inr columns \<Rightarrow>
          (Inr (map pileup_info_of columns),
           s\<lparr>position := position s, ops := ops s @ [OpTell, OpPileup, OpSeek (position s)]\<rparr>))"
  by (simp add: pileup_prepass_def tell_def pileup_def seek_def split: sum.splits)

lemma pileup_prepass_False:
  "pileup_prepass False s =
     (Inr [], s\<lparr>position := position s, ops := ops s @ [OpTell, OpSeek (position s)]\<rparr>)"
  by (simp add: pileup_prepass_def tell_def seek_def)


lemma BAM_featurize_True_Inl:
  "pileup_source s = Inl e \<Longrightarrow>
     BAM_featurize m True s =
       (Inl e, s\<lparr>position := pileup_end s, ops := ops s @ [OpTell, OpPileup]\<rparr>)"
  by (simp add: BAM_featurize_def pileup_prepass_True)

lemma BAM_featurize_True_Inr:
  assumes "pileup_source s = Inr columns"
  shows "BAM_featurize m True s =
     (case bam_loop m True (map pileup_info_of columns)
             (s\<lparr>position := position s,
                ops := ops s @ [OpTell, OpPileup, OpSeek (position s)]\<rparr>) [] 0 of
        (Inl e, s2) \<Rightarrow> (Inl e, s2)
      | (Inr features, s2) \<Rightarrow> (Inr (np_array features), close s2))"
  using assms by (simp add: BAM_featurize_def pileup_prepass_True)

lemma BAM_featurize_False:
  "BAM_featurize m False s =
     (case bam_loop m False []
             (s\<lparr>position := position s, ops := ops s @ [OpTell, OpSeek (position s)]\<rparr>) [] 0 of
        (Inl e, s2) \<Rightarrow> (Inl e, s2)
      | (Inr features, s2) \<Rightarrow> (Inr (np_array features), close s2))"
  by (simp add: BAM_featurize_def pileup_prepass_False)

section \<open>The pileup columns of the BAM featurizer\<close>

text \<open>
  Claim C4. With \<^verbatim>\<open>get_pileup\<close> set, the BAM featurizer calls the pileup pass once in
  a call, whatever \<open>max_records\<close> is: the calls it makes on the stream start with
  \<^verbatim>\<open>tell\<close> and \<^verbatim>\<open>pileup\<close>, and none of the calls after them (among them every read of a
  record) is a pileup pass. When it returns a table, every row of the table has ten
  fields, and the last field of every row is the list built from the columns of that
  one pass.
\<close>

theorem C4_pileup_once_before_the_rows_and_on_every_row:
  "(\<exists>rest. ops (snd (BAM_featurize max_records True s)) = ops s @ [OpTell, OpPileup] @ rest \<and>
           OpPileup \<notin> set rest) \<and>
   (fst (BAM_featurize max_records True s) = Inr a \<longrightarrow>
      (\<exists>columns. pileup_source s = Inr columns \<and>
         (\<forall>row \<in> set (data a).
            length row = 10 \<and> last row = CPileup (map pileup_info_of columns))))"
proof (cases "pileup_source s")
  case (Inl e)
  then show ?thesis
    by (simp add: BAM_featurize_True_Inl)
next
  case (Inr columns)
  let ?pcs = "map pileup_info_of columns"
  let ?s1 = "s\<lparr>position := position s, ops := ops s @ [OpTell, OpPileup, OpSeek (position s)]\<rparr>"
  obtain res s2 where run: "bam_loop max_records True ?pcs ?s1 [] 0 = (res, s2)"
    by (cases "bam_loop max_records True ?pcs ?s1 [] 0")
  from bam_loop_ops [of max_records True ?pcs ?s1 "[]" 0] run obtain rest where
    rest: "ops s2 = ops ?s1 @ rest" "OpPileup \<notin> set rest"
    by auto
  show ?thesis
  proof (cases res)
    case (Inl e)
    with run Inr have "BAM_featurize max_records True s = (Inl e, s2)"
      by (simp add: BAM_featurize_True_Inr)
    with rest show ?thesis by simp
  next
    case features: (Inr features)
    with run Inr have out:
      "BAM_featurize max_records True s = (Inr (np_array features), close s2)"
      by (simp add: BAM_featurize_True_Inr)
    from run features bam_loop_prefix [of max_records True ?pcs ?s1 "[]" 0 features s2]
    obtain rs where "features = map (bam_feature_vector True ?pcs) rs"
      by auto
    then have rows: "\<forall>row \<in> set features. length row = 10 \<and> last row = CPileup ?pcs"
      by (auto simp: bam_feature_vector_def)
    have "ops (close s2) = ops s @ [OpTell, OpPileup] @ (OpSeek (position s) # rest @ [OpClose])"
      using rest by (simp add: close_def)
    moreover have "OpPileup \<notin> set (OpSeek (position s) # rest @ [OpClose])"
      using rest by simp
    ultimately have "\<exists>rest. ops (snd (BAM_featurize max_records True s)) =
        ops s @ [OpTell, OpPileup] @ rest \<and> OpPileup \<notin> set rest"
      unfolding out snd_conv by blast
    with rows Inr show ?thesis
      by (auto simp: out data_np_array)
  qed
qed

theorem C4_pileup_once_before_the_rows_and_on_every_row_witness:
  "fst (BAM_featurize (Some 1) True (open_stream [Inr read_r1, Inr read_r2] (Inr [column_c1]) 2)) =
     Inr (np_array [bam_feature_vector True [pileup_info_of column_c1] read_r1]) \<and>
   (\<exists>rest. ops (snd (BAM_featurize (Some 1) True
               (open_stream [Inr read_r1, Inr read_r2] (Inr [column_c1]) 2))) =
             ops (open_stream [Inr read_r1, Inr read_r2] (Inr [column_c1]) 2) @
             [OpTell, OpPileup] @ rest \<and>
           OpPileup \<notin> set rest) \<and>
   (\<exists>columns. pileup_source (open_stream [Inr read_r1, Inr read_r2] (Inr [column_c1]) 2) =
               Inr columns \<and>
       (\<forall>row \<in> set (data (np_array [bam_feature_vector True [pileup_info_of column_c1] read_r1])).
          length row = 10 \<and> last row = CPileup (map pileup_info_of columns)))"
proof -
  let ?s = "open_stream [Inr read_r1, Inr read_r2] (Inr [column_c1]) 2"
  let ?a = "np_array [bam_feature_vector True [pileup_info_of column_c1] read_r1]"
  have h: "fst (BAM_featurize (Some 1) True ?s) = Inr ?a"
    by code_simp
  from C4_pileup_once_before_the_rows_and_on_every_row [of "Some 1" ?s ?a] h show ?thesis
    by blast
qed

section \<open>The position of the stream around the pileup pass\<close>

text \<open>
  Claim C5. With \<^verbatim>\<open>get_pileup\<close> set, when the pileup pass of lines 196 to 219
  completes, the position of the stream after it is the position that \<^verbatim>\<open>tell\<close>
  returned before it, which is the position the stream had.
\<close>

theorem C5_position_restored_after_pileup_prepass:
  assumes "fst (pileup_prepass True s) = Inr pileup_columns"
  shows "position (snd (pileup_prepass True s)) = fst (tell s) \<and> fst (tell s) = position s"
  using assms by (cases "pileup_source s") (simp_all add: pileup_prepass_True tell_def)

theorem C5_position_restored_after_pileup_prepass_witness:
  "fst (pileup_prepass True
      ((open_stream [Inr read_r1, Inr read_r2] (Inr [column_c1]) 2)\<lparr>position := 1\<rparr>)) =
     Inr [pileup_info_of column_c1] \<and>
   position (snd (pileup (snd (tell
      ((open_stream [Inr read_r1, Inr read_r2] (Inr [column_c1]) 2)\<lparr>position := 1\<rparr>))))) = 2 \<and>
   position (snd (pileup_prepass True
      ((open_stream [Inr read_r1, Inr read_r2] (Inr [column_c1]) 2)\<lparr>position := 1\<rparr>))) = 1"
proof -
  let ?s = "(open_stream [Inr read_r1, Inr read_r2] (Inr [column_c1]) 2)\<lparr>position := 1\<rparr>"
  have h: "fst (pileup_prepass True ?s) = Inr [pileup_info_of column_c1]"
    by (simp add: pileup_prepass_True open_stream_def)
  have mid: "position (snd (pileup (snd (tell ?s)))) = 2"
    by (simp add: pileup_def tell_def open_stream_def)
  from C5_position_restored_after_pileup_prepass [OF h] h mid show ?thesis
    by (simp add: tell_def open_stream_def)
qed

section \<open>A cap that the first record already reaches\<close>

lemma np_array_single: "np_array [row] = \<lparr>shape = [1, length row], data = [row]\<rparr>"
  by (simp add: np_array_def)

lemma np_array_Nil: "np_array [] = \<lparr>shape = [0], data = []\<rparr>"
  by (simp add: np_array_def)

lemma sam_loop_first_record_reaches_cap:
  assumes "k \<le> c + 1" and "drop (position s) (records s) = Inr r # rest"
  shows "sam_loop (Some k) s acc c =
           (Inr (acc @ [sam_feature_vector r]),
            s\<lparr>position := Suc (position s), ops := ops s @ [OpNext]\<rparr>)"
  using assms by (subst sam_loop.simps) (simp add: drop_Cons_next)

lemma bam_loop_first_record_reaches_cap:
  assumes "k \<le> c + 1" and "drop (position s) (records s) = Inr r # rest"
  shows "bam_loop (Some k) g pcs s acc c =
           (Inr (acc @ [bam_feature_vector g pcs r]),
            s\<lparr>position := Suc (position s),
              ops := ops s @ [OpNext, OpTell, OpSeek (Suc (position s))]\<rparr>)"
  using assms by (subst bam_loop.simps) (simp add: drop_Cons_next tell_def seek_def)

text \<open>
  Claim C9. When the next record of the stream is readable and \<open>max_records\<close> is zero
  or negative, the SAM, BAM and CRAM featurizers read that one record and return a
  table with exactly one row, the row of that record: the cap is compared only after
  the row has been appended. (For the BAM featurizer with \<^verbatim>\<open>get_pileup\<close> set, this
  is when the pileup pass completes.)
\<close>

theorem C9_cap_at_most_zero_returns_the_first_record:
  assumes "k \<le> 0" and "drop (position s) (records s) = Inr r # rest"
  shows "SAM_featurize (Some k) s =
           (Inr \<lparr>shape = [1, 7], data = [sam_feature_vector r]\<rparr>,
            s\<lparr>position := Suc (position s), closed := True,
              ops := ops s @ [OpNext, OpClose]\<rparr>) \<and>
         CRAM_featurize (Some k) s =
           (Inr \<lparr>shape = [1, 7], data = [cram_feature_vector r]\<rparr>,
            s\<lparr>position := Suc (position s), closed := True,
              ops := ops s @ [OpNext, OpClose]\<rparr>) \<and>
         fst (BAM_featurize (Some k) False s) =
           Inr \<lparr>shape = [1, 9], data = [bam_feature_vector False [] r]\<rparr> \<and>
         (pileup_source s = Inr columns \<longrightarrow>
            fst (BAM_featurize (Some k) True s) =
              Inr \<lparr>shape = [1, 10],
                   data = [bam_feature_vector True (map pileup_info_of columns) r]\<rparr>)"
proof -
  from assms(1) have k: "k \<le> 0 + 1" by simp
  have sam: "SAM_featurize (Some k) s =
           (Inr \<lparr>shape = [1, 7], data = [sam_feature_vector r]\<rparr>,
            s\<lparr>position := Suc (position s), closed := True,
              ops := ops s @ [OpNext, OpClose]\<rparr>)"
    by (simp add: SAM_featurize_def sam_loop_first_record_reaches_cap [OF k assms(2)]
        np_array_single close_def sam_feature_vector_def)
  have cram: "cram_feature_vector r = sam_feature_vector r"
    by (simp add: cram_feature_vector_def sam_feature_vector_def)
  let ?s1 = "s\<lparr>position := position s, ops := ops s @ [OpTell, OpSeek (position s)]\<rparr>"
  have "drop (position ?s1) (records ?s1) = Inr r # rest"
    using assms(2) by simp
  from bam_loop_first_record_reaches_cap [OF k this]
  have bam: "fst (BAM_featurize (Some k) False s) =
           Inr \<lparr>shape = [1, 9], data = [bam_feature_vector False [] r]\<rparr>"
    by (simp add: BAM_featurize_False np_array_single bam_feature_vector_def)
  have bamp: "fst (BAM_featurize (Some k) True s) =
              Inr \<lparr>shape = [1, 10],
                   data = [bam_feature_vector True (map pileup_info_of columns) r]\<rparr>"
    if src: "pileup_source s = Inr columns"
  proof -
    let ?s2 = "s\<lparr>position := position s,
                 ops := ops s @ [OpTell, OpPileup, OpSeek (position s)]\<rparr>"
    have "drop (position ?s2) (records ?s2) = Inr r # rest"
      using assms(2) by simp
    from bam_loop_first_record_reaches_cap [OF k this] show ?thesis
      by (simp add: BAM_featurize_True_Inr [OF src] np_array_single bam_feature_vector_def)
  qed
  from sam cram bam bamp show ?thesis
    by (simp add: CRAM_featurize_SAM_featurize)
qed

theorem C9_cap_at_most_zero_returns_the_first_record_witness:
  "(- 3 :: int) \<le> 0 \<and>
   fst (SAM_featurize (Some (- 3)) (open_stream [Inr read_r2, Inr read_r1] (Inr [column_c1]) 2)) =
     Inr \<lparr>shape = [1, 7], data = [sam_feature_vector read_r2]\<rparr> \<and>
   ops (snd (SAM_featurize (Some (- 3))
         (open_stream [Inr read_r2, Inr read_r1] (Inr [column_c1]) 2))) = [OpNext, OpClose] \<and>
   fst (CRAM_featurize (Some (- 3)) (open_stream [Inr read_r2, Inr read_r1] (Inr [column_c1]) 2)) =
     Inr \<lparr>shape = [1, 7], data = [cram_feature_vector read_r2]\<rparr> \<and>
   fst (BAM_featurize (Some (- 3)) False
         (open_stream [Inr read_r2, Inr read_r1] (Inr [column_c1]) 2)) =
     Inr \<lparr>shape = [1, 9], data = [bam_feature_vector False [] read_r2]\<rparr> \<and>
   fst (BAM_featurize (Some (- 3)) True
         (open_stream [Inr read_r2, Inr read_r1] (Inr [column_c1]) 2)) =
     Inr \<lparr>shape = [1, 10],
          data = [bam_feature_vector True (map pileup_info_of [column_c1]) read_r2]\<rparr>"
proof -
  let ?s = "open_stream [Inr read_r2, Inr read_r1] (Inr [column_c1]) 2"
  have k: "(- 3 :: int) \<le> 0" by simp
  have d: "drop (position ?s) (records ?s) = Inr read_r2 # [Inr read_r1]"
    by (simp add: open_stream_def)
  have p: "pileup_source ?s = Inr [column_c1]"
    by (simp add: open_stream_def)
  from C9_cap_at_most_zero_returns_the_first_record [OF k d, of "[column_c1]"] p show ?thesis
    by (simp add: open_stream_def)
qed

section \<open>Inputs without records\<close>

lemma sam_loop_no_records:
  "records s = [] \<Longrightarrow> sam_loop m s acc c = (Inr acc, s\<lparr>ops := ops s @ [OpNext]\<rparr>)"
  by (subst sam_loop.simps) (simp add: drop_Nil_next)

lemma bam_loop_no_records:
  "records s = [] \<Longrightarrow> bam_loop m g pcs s acc c = (Inr acc, s\<lparr>ops := ops s @ [OpNext]\<rparr>)"
  by (subst bam_loop.simps) (simp add: drop_Nil_next)

lemma fasta_loop_no_entries: "entries f = [] \<Longrightarrow> fasta_loop f acc = (Inr acc, f)"
  by (subst fasta_loop.simps) (simp add: next_entry_def)

lemma fasta_loop_wellformed:
  "entries f = map Inr es \<Longrightarrow>
     fasta_loop f acc =
       (Inr (acc @ map (\<lambda>e. [CStr (Some (name e)), CStr (Some (sequence e))]) es),
        f\<lparr>entries := []\<rparr>)"
proof (induction es arbitrary: f acc)
  case Nil
  then show ?case
    by (simp add: fasta_loop_no_entries)
next
  case (Cons e es)
  then have nx: "next_entry f = (Yield e, f\<lparr>entries := map Inr es\<rparr>)"
    by (simp add: next_entry_def)
  have "entries (f\<lparr>entries := map Inr es\<rparr>) = map Inr es" by simp
  from Cons.IH [OF this] show ?case
    by (subst fasta_loop.simps) (simp add: nx)
qed

lemma np_array_uniform:
  assumes "rows \<noteq> []" and "\<forall>r \<in> set rows. length r = k"
  shows "np_array rows = \<lparr>shape = [length rows, k], data = rows\<rparr>"
  using assms by (cases rows) (auto simp: np_array_def list_all_iff)

text \<open>
  Claim C10. On a stream with no records every value of \<open>max_records\<close> makes the
  SAM, CRAM and BAM featurizers return an array of shape \<open>(0,)\<close>: an empty
  one-dimensional array, not a table with no rows and 7, 9 or 10 columns. (For the BAM
  featurizer with \<^verbatim>\<open>get_pileup\<close> set, this is when the pileup pass completes.) The
  FASTA featurizer returns the same array for a file with no entries.
\<close>

theorem C10_no_records_gives_an_empty_one_dimensional_array:
  assumes "records s = []"
  shows "fst (SAM_featurize max_records s) = Inr \<lparr>shape = [0], data = []\<rparr> \<and>
         fst (CRAM_featurize max_records s) = Inr \<lparr>shape = [0], data = []\<rparr> \<and>
         fst (BAM_featurize max_records False s) = Inr \<lparr>shape = [0], data = []\<rparr> \<and>
         (pileup_source s = Inr columns \<longrightarrow>
            fst (BAM_featurize max_records True s) = Inr \<lparr>shape = [0], data = []\<rparr>) \<and>
         (fs path = Some [] \<longrightarrow>
            fst (FASTA_featurize fs path) = Inr \<lparr>shape = [0], data = []\<rparr>)"
proof -
  from assms have sam: "fst (SAM_featurize max_records s) = Inr \<lparr>shape = [0], data = []\<rparr>"
    by (simp add: SAM_featurize_def sam_loop_no_records np_array_Nil)
  from assms have bam: "fst (BAM_featurize max_records False s) = Inr \<lparr>shape = [0], data = []\<rparr>"
    by (simp add: BAM_featurize_False bam_loop_no_records np_array_Nil)
  from assms have bamp: "fst (BAM_featurize max_records True s) = Inr \<lparr>shape = [0], data = []\<rparr>"
    if "pileup_source s = Inr columns"
    using that by (simp add: BAM_featurize_True_Inr bam_loop_no_records np_array_Nil)
  have fasta: "fst (FASTA_featurize fs path) = Inr \<lparr>shape = [0], data = []\<rparr>"
    if "fs path = Some []"
    using that by (simp add: FASTA_featurize_def FastxFile_def fasta_loop_no_entries np_array_Nil)
  from sam bam bamp fasta show ?thesis
    by (simp add: CRAM_featurize_SAM_featurize)
qed

theorem C10_no_records_gives_an_empty_one_dimensional_array_witness:
  "records (open_stream [] (Inr [column_c1]) 0) = [] \<and>
   fst (SAM_featurize None (open_stream [] (Inr [column_c1]) 0)) = Inr \<lparr>shape = [0], data = []\<rparr> \<and>
   fst (CRAM_featurize None (open_stream [] (Inr [column_c1]) 0)) = Inr \<lparr>shape = [0], data = []\<rparr> \<and>
   fst (BAM_featurize None False (open_stream [] (Inr [column_c1]) 0)) =
     Inr \<lparr>shape = [0], data = []\<rparr> \<and>
   fst (BAM_featurize None True (open_stream [] (Inr [column_c1]) 0)) =
     Inr \<lparr>shape = [0], data = []\<rparr> \<and>
   fst (FASTA_featurize fasta_files ''empty.fasta'') = Inr \<lparr>shape = [0], data = []\<rparr>"
proof -
  let ?s = "open_stream [] (Inr [column_c1]) 0"
  have r: "records ?s = []" by (simp add: open_stream_def)
  have p: "pileup_source ?s = Inr [column_c1]" by (simp add: open_stream_def)
  have f: "fasta_files ''empty.fasta'' = Some []" by (simp add: fasta_files_def)
  from C10_no_records_gives_an_empty_one_dimensional_array
         [OF r, of None "[column_c1]" fasta_files "''empty.fasta''"] r p f
  show ?thesis by simp
qed

section \<open>Rows of the FASTA featurizer\<close>

text \<open>
  Claim C7. For a FASTA file whose entries are all readable, the table has one row for
  each entry of the file, in the order of the file, and each row is the pair
  [name, sequence] of its entry: no entry is left out and none is changed. The shape of
  the array is \<open>(n, 2)\<close> for \<open>n > 0\<close> entries.
\<close>

theorem C7_fasta_one_row_per_entry_in_file_order:
  assumes "fs path = Some (map Inr es)"
  shows "\<exists>a. fst (FASTA_featurize fs path) = Inr a \<and>
           data a = map (\<lambda>e. [CStr (Some (name e)), CStr (Some (sequence e))]) es \<and>
           length (data a) = length es \<and>
           shape a = (if es = [] then [0] else [length es, 2])"
proof -
  let ?rows = "map (\<lambda>e. [CStr (Some (name e)), CStr (Some (sequence e))]) es"
  have "entries \<lparr>entries = map Inr es, fastx_closed = False\<rparr> = map Inr es" by simp
  from fasta_loop_wellformed [OF this, of "[]"] assms
  have out: "fst (FASTA_featurize fs path) = Inr (np_array ?rows)"
    by (simp add: FASTA_featurize_def FastxFile_def)
  have "shape (np_array ?rows) = (if es = [] then [0] else [length es, 2])"
  proof (cases "es = []")
    case True
    then show ?thesis by (simp add: np_array_Nil)
  next
    case False
    then have "?rows \<noteq> []" by simp
    moreover have "\<forall>r \<in> set ?rows. length r = 2" by auto
    ultimately have "np_array ?rows = \<lparr>shape = [length ?rows, 2], data = ?rows\<rparr>"
      by (rule np_array_uniform)
    with False show ?thesis by simp
  qed
  with out show ?thesis
    by (simp add: data_np_array)
qed

theorem C7_fasta_one_row_per_entry_in_file_order_witness:
  "fasta_files ''example.fasta'' =
     Some (map Inr [\<lparr>name = ''seq1'', sequence = ''ACGT''\<rparr>, \<lparr>name = ''seq2'', sequence = ''TTTT''\<rparr>]) \<and>
   (\<exists>a. fst (FASTA_featurize fasta_files ''example.fasta'') = Inr a \<and>
        data a = [[CStr (Some ''seq1''), CStr (Some ''ACGT'')],
                  [CStr (Some ''seq2''), CStr (Some ''TTTT'')]] \<and>
        shape a = [2, 2])"
proof -
  have f: "fasta_files ''example.fasta'' =
     Some (map Inr [\<lparr>name = ''seq1'', sequence = ''ACGT''\<rparr>, \<lparr>name = ''seq2'', sequence = ''TTTT''\<rparr>])"
    by (simp add: fasta_files_def)
  from C7_fasta_one_row_per_entry_in_file_order [of fasta_files "''example.fasta''", OF f] f
  show ?thesis
    by (auto simp: eval_nat_numeral)
qed

section \<open>Closing the stream\<close>

lemma SAM_featurize_closed:
  "fst (SAM_featurize m s) = Inr a \<Longrightarrow> closed (snd (SAM_featurize m s))"
  by (auto simp: SAM_featurize_def close_def split: prod.splits sum.splits)

lemma BAM_featurize_closed:
  "fst (BAM_featurize m g s) = Inr a \<Longrightarrow> closed (snd (BAM_featurize m g s))"
  by (auto simp: BAM_featurize_def close_def split: prod.splits sum.splits)

lemma FASTA_featurize_closed:
  "snd (FASTA_featurize fs path) = Some f \<Longrightarrow> fastx_closed f"
  by (auto simp: FASTA_featurize_def fastx_close_def split: prod.splits sum.splits)

lemma FASTA_featurize_no_handle:
  "snd (FASTA_featurize fs path) = None \<Longrightarrow> fs path = None"
  by (auto simp: FASTA_featurize_def FastxFile_def split: prod.splits sum.splits option.splits)

text \<open>
  Claim C2, as stated: the handle is closed on every exit path of every featurizer,
  an exception raised while the records are read included. The SAM, CRAM and BAM
  featurizers do not do so: on a stream whose second record cannot be read, the
  exception leaves the call and the stream is still open.
\<close>

theorem C2_counterexample_error_leaves_stream_open:
  "fst (SAM_featurize None
         (open_stream [Inr read_r1, Inl (LibError ''truncated file'')] (Inr []) 0)) =
     Inl (LibError ''truncated file'') \<and>
   \<not> closed (snd (SAM_featurize None
         (open_stream [Inr read_r1, Inl (LibError ''truncated file'')] (Inr []) 0))) \<and>
   fst (CRAM_featurize None
         (open_stream [Inr read_r1, Inl (LibError ''truncated file'')] (Inr []) 0)) =
     Inl (LibError ''truncated file'') \<and>
   \<not> closed (snd (CRAM_featurize None
         (open_stream [Inr read_r1, Inl (LibError ''truncated file'')] (Inr []) 0))) \<and>
   fst (BAM_featurize None False
         (open_stream [Inr read_r1, Inl (LibError ''truncated file'')] (Inr []) 0)) =
     Inl (LibError ''truncated file'') \<and>
   \<not> closed (snd (BAM_featurize None False
         (open_stream [Inr read_r1, Inl (LibError ''truncated file'')] (Inr []) 0)))"
  by code_simp

text \<open>
  Claim C2, amended. Whenever the SAM, CRAM or BAM featurizer returns a table (the cap
  was reached or the stream was exhausted), the stream is closed. The FASTA featurizer
  closes the file it opened on every exit path, also when reading an entry raises; it
  hands back no handle only when the path has no file to open.
\<close>

theorem C2_closed_on_return_and_fasta_always:
  "(fst (SAM_featurize max_records s) = Inr a \<longrightarrow> closed (snd (SAM_featurize max_records s))) \<and>
   (fst (CRAM_featurize max_records s) = Inr a \<longrightarrow> closed (snd (CRAM_featurize max_records s))) \<and>
   (fst (BAM_featurize max_records get_pileup s) = Inr a \<longrightarrow>
      closed (snd (BAM_featurize max_records get_pileup s))) \<and>
   (snd (FASTA_featurize fs path) = Some f \<longrightarrow> fastx_closed f) \<and>
   (snd (FASTA_featurize fs path) = None \<longrightarrow> fs path = None)"
  using SAM_featurize_closed [of max_records s a]
    BAM_featurize_closed [of max_records get_pileup s a]
    FASTA_featurize_closed [of fs path f] FASTA_featurize_no_handle [of fs path]
  by (simp add: CRAM_featurize_SAM_featurize)

theorem C2_closed_on_return_and_fasta_always_witness:
  "closed (snd (SAM_featurize (Some 1) (open_stream [Inr read_r1, Inr read_r2] (Inr [column_c1]) 2))) \<and>
   closed (snd (CRAM_featurize None (open_stream [Inr read_r1, Inr read_r2] (Inr [column_c1]) 2))) \<and>
   closed (snd (BAM_featurize (Some 1) True
                  (open_stream [Inr read_r1, Inr read_r2] (Inr [column_c1]) 2))) \<and>
   fst (FASTA_featurize fasta_files ''broken.fasta'') = Inl (LibError ''malformed entry'') \<and>
   snd (FASTA_featurize fasta_files ''broken.fasta'') =
     Some \<lparr>entries = [Inl (LibError ''malformed entry'')], fastx_closed = True\<rparr> \<and>
   fastx_closed \<lparr>entries = [Inl (LibError ''malformed entry'')], fastx_closed = True\<rparr> \<and>
   snd (FASTA_featurize fasta_files ''missing.fasta'') = None \<and>
   fasta_files ''missing.fasta'' = None"
proof -
  let ?s = "open_stream [Inr read_r1, Inr read_r2] (Inr [column_c1]) 2"
  let ?f = "\<lparr>entries = [Inl (LibError ''malformed entry'')], fastx_closed = True\<rparr>"
  have sam: "fst (SAM_featurize (Some 1) ?s) = Inr (np_array [sam_feature_vector read_r1])"
    by code_simp
  have cram: "fst (CRAM_featurize None ?s) =
      Inr (np_array [cram_feature_vector read_r1, cram_feature_vector read_r2])"
    by code_simp
  have bam: "fst (BAM_featurize (Some 1) True ?s) =
      Inr (np_array [bam_feature_vector True [pileup_info_of column_c1] read_r1])"
    by code_simp
  have fasta: "fst (FASTA_featurize fasta_files ''broken.fasta'') = Inl (LibError ''malformed entry'')"
    "snd (FASTA_featurize fasta_files ''broken.fasta'') = Some ?f"
    by code_simp+
  from C2_closed_on_return_and_fasta_always
         [of "Some 1" ?s "np_array [sam_feature_vector read_r1]"] sam
  have 1: "closed (snd (SAM_featurize (Some 1) ?s))" by simp
  from C2_closed_on_return_and_fasta_always
         [of None ?s "np_array [cram_feature_vector read_r1, cram_feature_vector read_r2]"] cram
  have 2: "closed (snd (CRAM_featurize None ?s))" by simp
  from C2_closed_on_return_and_fasta_always
         [of "Some 1" ?s "np_array [bam_feature_vector True [pileup_info_of column_c1] read_r1]" True]
       bam
  have 3: "closed (snd (BAM_featurize (Some 1) True ?s))" by simp
  from C2_closed_on_return_and_fasta_always [of _ _ _ _ fasta_files "''broken.fasta''" ?f] fasta
  have 4: "fastx_closed ?f" by simp
  have missing: "snd (FASTA_featurize fasta_files ''missing.fasta'') = None"
    by code_simp
  from C2_closed_on_return_and_fasta_always [of _ _ _ _ fasta_files "''missing.fasta''"] missing
  have 5: "fasta_files ''missing.fasta'' = None" by simp
  from 1 2 3 4 5 fasta missing show ?thesis by simp
qed

section \<open>The number of rows\<close>

text \<open>
  On a stream of readable records the featurizers return the rows of the first
  \<open>rows_read max_records 0 n\<close> records. That is all \<open>n\<close> records without a cap, and
  at most \<open>max_records\<close> of them for a cap of one or more.
\<close>

lemma rows_read_None: "rows_read None c n = n"
  by (simp add: rows_read_def)

lemma rows_read_le_cap: "1 \<le> k \<Longrightarrow> int (rows_read (Some k) 0 n) \<le> k"
  by (simp add: rows_read_def)

lemma rows_read_cap_le_0: "k \<le> 0 \<Longrightarrow> rows_read (Some k) 0 n = min n 1"
  by (simp add: rows_read_def)

lemma SAM_featurize_wellformed:
  assumes "drop (position s) (records s) = map Inr rs"
  shows "fst (SAM_featurize m s) =
           Inr (np_array (map sam_feature_vector (take (rows_read m 0 (length rs)) rs)))"
proof (cases "sam_loop m s [] 0")
  case (Pair res s1)
  with sam_loop_wellformed [OF assms, of m "[]" 0] show ?thesis
    by (simp add: SAM_featurize_def)
qed

lemma BAM_featurize_False_wellformed:
  assumes "drop (position s) (records s) = map Inr rs"
  shows "fst (BAM_featurize m False s) =
           Inr (np_array (map (bam_feature_vector False [])
                  (take (rows_read m 0 (length rs)) rs)))"
proof -
  let ?s1 = "s\<lparr>position := position s, ops := ops s @ [OpTell, OpSeek (position s)]\<rparr>"
  have "drop (position ?s1) (records ?s1) = map Inr rs" using assms by simp
  from bam_loop_wellformed [OF this, of m False "[]" "[]" 0] show ?thesis
    by (cases "bam_loop m False [] ?s1 [] 0") (simp add: BAM_featurize_False)
qed

lemma BAM_featurize_True_wellformed:
  assumes "drop (position s) (records s) = map Inr rs" and "pileup_source s = Inr columns"
  shows "fst (BAM_featurize m True s) =
           Inr (np_array (map (bam_feature_vector True (map pileup_info_of columns))
                  (take (rows_read m 0 (length rs)) rs)))"
proof -
  let ?s1 = "s\<lparr>position := position s,
               ops := ops s @ [OpTell, OpPileup, OpSeek (position s)]\<rparr>"
  have "drop (position ?s1) (records ?s1) = map Inr rs" using assms by simp
  from bam_loop_wellformed [OF this, of m True "map pileup_info_of columns" "[]" 0]
  show ?thesis
    by (cases "bam_loop m True (map pileup_info_of columns) ?s1 [] 0")
       (simp add: BAM_featurize_True_Inr [OF assms(2)])
qed

lemma SAM_row_count_positive_cap:
  assumes "drop (position s) (records s) = map Inr rs" and "1 \<le> k"
  shows "\<exists>a. fst (SAM_featurize (Some k) s) = Inr a \<and> int (length (data a)) \<le> k \<and>
           length (data a) = min (length rs) (nat k)"
  using assms by (simp add: SAM_featurize_wellformed data_np_array rows_read_def)

lemma SAM_row_count_no_cap:
  assumes "drop (position s) (records s) = map Inr rs"
  shows "\<exists>a. fst (SAM_featurize None s) = Inr a \<and> length (data a) = length rs"
  using assms by (simp add: SAM_featurize_wellformed data_np_array rows_read_def)

text \<open>
  Claim C1 says that with \<^verbatim>\<open>max_records = 0\<close> the SAM, BAM and CRAM featurizers
  return an empty table and read no record. On a stream of one record the code does
  otherwise: each of the three reads the record (one \<^verbatim>\<open>next\<close> in the log of calls)
  and returns a table with the row of that record; the stream is closed.
\<close>

theorem C1_cap_zero_reads_and_returns_one_record:
  "SAM_featurize (Some 0) (open_stream [Inr read_r1] (Inr []) 0) =
     (Inr \<lparr>shape = [1, 7], data = [sam_feature_vector read_r1]\<rparr>,
      \<lparr>records = [Inr read_r1], position = 1, pileup_source = Inr [], pileup_end = 0,
       closed = True, ops = [OpNext, OpClose]\<rparr>) \<and>
   CRAM_featurize (Some 0) (open_stream [Inr read_r1] (Inr []) 0) =
     (Inr \<lparr>shape = [1, 7], data = [cram_feature_vector read_r1]\<rparr>,
      \<lparr>records = [Inr read_r1], position = 1, pileup_source = Inr [], pileup_end = 0,
       closed = True, ops = [OpNext, OpClose]\<rparr>) \<and>
   BAM_featurize (Some 0) False (open_stream [Inr read_r1] (Inr []) 0) =
     (Inr \<lparr>shape = [1, 9], data = [bam_feature_vector False [] read_r1]\<rparr>,
      \<lparr>records = [Inr read_r1], position = 1, pileup_source = Inr [], pileup_end = 0,
       closed = True, ops = [OpTell, OpSeek 0, OpNext, OpTell, OpSeek 1, OpClose]\<rparr>)"
  by code_simp

text \<open>
  Claim C3 says that the table has at most \<open>max_records\<close> rows. On a stream of two
  records with \<^verbatim>\<open>max_records = 0\<close> the SAM and CRAM featurizers return one row,
  which is more than the cap.
\<close>

theorem C3_cap_zero_returns_more_rows_than_the_cap:
  "fst (SAM_featurize (Some 0) (open_stream [Inr read_r1, Inr read_r2] (Inr []) 0)) =
     Inr \<lparr>shape = [1, 7], data = [sam_feature_vector read_r1]\<rparr> \<and>
   fst (CRAM_featurize (Some 0) (open_stream [Inr read_r1, Inr read_r2] (Inr []) 0)) =
     Inr \<lparr>shape = [1, 7], data = [cram_feature_vector read_r1]\<rparr> \<and>
   \<not> int (length [sam_feature_vector read_r1]) \<le> 0"
  by code_simp

end
